theory Spec2Isabelle
  imports Complex_Main "HOL-Library.Char_ord" "HOL-Library.List_Lexorder"
    "HOL-Library.Product_Lexorder" "HOL-Library.Sublist"
begin

section \<open>Conventions\<close>

text \<open>
  A Python \<open>str\<close> is modelled as a \<open>string\<close> in which every \<open>char\<close> stands for one
  code point; the model therefore covers texts whose code points are below 256.
  Exceptions are values of type \<open>error\<close>; a function that can raise returns
  \<open>error + 'a\<close> with \<open>Inl\<close> for the exception.
\<close>

datatype error = KeyError | ValueError | OverflowError | OSError | JSONDecodeError

section \<open>models.py\<close>

record User =
  u_id :: string
  u_name :: string
  u_display_name :: string
  u_real_name :: string

text \<open>\<open>User.label\<close>: \<open>self.display_name or self.real_name or self.name\<close>.\<close>

definition label :: "User \<Rightarrow> string" where
  "label u = (if u_display_name u \<noteq> [] then u_display_name u
              else if u_real_name u \<noteq> [] then u_real_name u
              else u_name u)"

record Attachment =
  a_title :: string
  a_fallback :: string
  a_text :: string
  a_from_url :: string

record File =
  f_name :: string
  f_url_private :: string
  f_permalink :: string

text \<open>
  Messages are mutable objects that are shared between the list of top-level
  messages, the parent registry and the \<open>replies\<close> lists. An object is identified by
  its address; the \<open>replies\<close> field holds the addresses of the reply objects.
\<close>

type_synonym addr = nat

record Message =
  m_user :: string
  m_text :: string
  m_ts :: string
  m_thread_ts :: string
  m_replies :: "addr list"
  m_attachments :: "Attachment list"
  m_files :: "File list"
  m_subtype :: string


section \<open>Regular expressions\<close>

text \<open>
  The fragment of Python's \<open>re\<close> that the program uses. Quantifiers only occur on
  character classes. \<open>rx_run\<close> lists every way the expression matches at a position,
  in the order in which a backtracking matcher tries them, so the head of the list is
  the match that \<open>re\<close> reports. A matcher state holds the captured groups, the
  character before the position (for look-behind) and the text from the position on.
\<close>

datatype rx =
    Lit string
  | Rep nat "char \<Rightarrow> bool"
  | Star "char \<Rightarrow> bool"
  | Plus "char \<Rightarrow> bool"
  | LazyPlus "char \<Rightarrow> bool"
  | Seq rx rx
  | Opt rx
  | Group rx
  | NotBehind "char \<Rightarrow> bool"
  | NotAhead "char \<Rightarrow> bool"
  | Eos

type_synonym mstate = "string list \<times> char option \<times> string"

definition advance :: "nat \<Rightarrow> mstate \<Rightarrow> mstate" where
  "advance n st = (case st of (g, p, t) \<Rightarrow>
     (g, (if n = 0 then p else Some (t ! (n - 1))), drop n t))"

fun rx_run :: "rx \<Rightarrow> mstate \<Rightarrow> mstate list" where
  "rx_run (Lit s) (g, p, t) =
     (if take (length s) t = s then [advance (length s) (g, p, t)] else [])"
| "rx_run (Rep n P) (g, p, t) =
     (if n \<le> length t \<and> list_all P (take n t) then [advance n (g, p, t)] else [])"
| "rx_run (Star P) (g, p, t) =
     map (\<lambda>n. advance n (g, p, t)) (rev [0 ..< Suc (length (takeWhile P t))])"
| "rx_run (Plus P) (g, p, t) =
     map (\<lambda>n. advance n (g, p, t)) (rev [1 ..< Suc (length (takeWhile P t))])"
| "rx_run (LazyPlus P) (g, p, t) =
     map (\<lambda>n. advance n (g, p, t)) [1 ..< Suc (length (takeWhile P t))]"
| "rx_run (Seq a b) st = concat (map (rx_run b) (rx_run a st))"
| "rx_run (Opt a) st = rx_run a st @ [st]"
| "rx_run (Group a) (g, p, t) =
     map (\<lambda>(g', p', t'). (g' @ [take (length t - length t') t], p', t'))
       (rx_run a (g, p, t))"
| "rx_run (NotBehind P) (g, p, t) =
     (case p of None \<Rightarrow> [(g, p, t)] | Some c \<Rightarrow> if P c then [] else [(g, p, t)])"
| "rx_run (NotAhead P) (g, p, t) =
     (case t of [] \<Rightarrow> [(g, p, t)] | c # _ \<Rightarrow> if P c then [] else [(g, p, t)])"
| "rx_run Eos (g, p, t) = (if t = [] \<or> t = [CHR 0x0A] then [(g, p, t)] else [])"

text \<open>\<open>re.match\<close>: the first match at the start of the text, as its groups.\<close>

definition re_match :: "rx \<Rightarrow> string \<Rightarrow> string list option" where
  "re_match r s = (case rx_run r ([], None, s) of [] \<Rightarrow> None | (g, _) # _ \<Rightarrow> Some g)"

text \<open>
  \<open>re.sub\<close> with a replacement function of the groups: the text is scanned from the
  left, the leftmost match is replaced and the scan goes on behind it. The counter is
  the number of characters of the current match that are still to be passed over.
  None of the program's patterns matches the empty string.
\<close>

fun re_scan :: "rx \<Rightarrow> (string list \<Rightarrow> string) \<Rightarrow> nat \<Rightarrow> char option \<Rightarrow> string \<Rightarrow> string" where
  "re_scan r f k p [] = []"
| "re_scan r f (Suc k) p (c # cs) = re_scan r f k (Some c) cs"
| "re_scan r f 0 p (c # cs) =
     (case rx_run r ([], p, c # cs) of
        [] \<Rightarrow> c # re_scan r f 0 (Some c) cs
      | (g, _, t') # _ \<Rightarrow> f g @ re_scan r f (length cs - length t') (Some c) cs)"

definition re_sub :: "rx \<Rightarrow> (string list \<Rightarrow> string) \<Rightarrow> string \<Rightarrow> string" where
  "re_sub r f s = re_scan r f 0 None s"

definition group1 :: "string list \<Rightarrow> string" where
  "group1 g = (case g of [] \<Rightarrow> [] | x # _ \<Rightarrow> x)"

text \<open>Character classes: \<open>\d\<close>, \<open>\w\<close> (Unicode-aware, here on code points below 256)
  and \<open>.\<close> (anything but a line feed).\<close>

definition is_digit :: "char \<Rightarrow> bool" where
  "is_digit c = (let n = (of_char c :: nat) in 48 \<le> n \<and> n \<le> 57)"

definition is_word :: "char \<Rightarrow> bool" where
  "is_word c = (let n = (of_char c :: nat) in
     (48 \<le> n \<and> n \<le> 57) \<or> (65 \<le> n \<and> n \<le> 90) \<or> n = 95 \<or> (97 \<le> n \<and> n \<le> 122) \<or>
     n = 170 \<or> n = 178 \<or> n = 179 \<or> n = 181 \<or> n = 185 \<or> n = 186 \<or>
     n = 188 \<or> n = 189 \<or> n = 190 \<or>
     (192 \<le> n \<and> n \<le> 214) \<or> (216 \<le> n \<and> n \<le> 246) \<or> 248 \<le> n)"

definition dot :: "char \<Rightarrow> bool" where
  "dot c = (c \<noteq> CHR 0x0A)"

section \<open>Decoded JSON and the archive\<close>

text \<open>
  A decoded JSON object, as far as the program reads it: its string-valued keys, its
  object-valued keys and its keys that hold a list of objects. A key that is absent
  from the object is absent from all three lists. \<open>dget d k v\<close> is \<open>d.get(k, v)\<close>.

  The model is of exports that follow the format of the export: a key that is there
  holds a value of the type the format gives it. A key that holds \<open>null\<close> or a value of
  another type (on which the program raises \<open>AttributeError\<close> or \<open>TypeError\<close>, or
  stores a value that is not a string) has no representation here, and no statement
  of this theory is about such a record.
\<close>

datatype jobj =
  JObj (strs: "(string \<times> string) list")
       (objs: "(string \<times> jobj) list")
       (lists: "(string \<times> jobj list) list")

definition dget :: "(string \<times> 'a) list \<Rightarrow> string \<Rightarrow> 'a \<Rightarrow> 'a" where
  "dget d k v = (case map_of d k of None \<Rightarrow> v | Some x \<Rightarrow> x)"

definition empty_obj :: jobj where
  "empty_obj = JObj [] [] []"

text \<open>Truth value of a dict: it has at least one key.\<close>

definition truthy :: "jobj \<Rightarrow> bool" where
  "truthy d = (strs d \<noteq> [] \<or> objs d \<noteq> [] \<or> lists d \<noteq> [])"

text \<open>
  The opened ZIP archive: its members in archive order, each with the result of
  \<open>json.loads\<close> on its bytes (\<open>None\<close> when the bytes are not valid JSON). Reading a
  name that occurs more than once yields the last member of that name.
\<close>

type_synonym archive = "(string \<times> jobj list option) list"

definition namelist :: "archive \<Rightarrow> string list" where
  "namelist zf = map fst zf"

definition read_json :: "archive \<Rightarrow> string \<Rightarrow> error + jobj list" where
  "read_json zf name =
     (case map_of (rev zf) name of
        None \<Rightarrow> Inl KeyError
      | Some None \<Rightarrow> Inl JSONDecodeError
      | Some (Some data) \<Rightarrow> Inr data)"

fun split_on :: "char \<Rightarrow> string \<Rightarrow> string list" where
  "split_on c [] = [[]]"
| "split_on c (x # xs) =
     (if x = c then [] # split_on c xs
      else (case split_on c xs of [] \<Rightarrow> [[x]] | w # ws \<Rightarrow> (x # w) # ws))"


section \<open>parser.py\<close>

type_synonym users = "string \<rightharpoonup> User"







definition parse_attachment :: "jobj \<Rightarrow> Attachment" where
  "parse_attachment a =
     \<lparr>a_title = dget (strs a) ''title'' [],
      a_fallback = dget (strs a) ''fallback'' [],
      a_text = dget (strs a) ''text'' [],
      a_from_url = dget (strs a) ''from_url'' []\<rparr>"

definition parse_file :: "jobj \<Rightarrow> File" where
  "parse_file f =
     \<lparr>f_name = dget (strs f) ''name'' [],
      f_url_private = dget (strs f) ''url_private'' [],
      f_permalink = dget (strs f) ''permalink'' []\<rparr>"

definition parse_message :: "jobj \<Rightarrow> Message" where
  "parse_message raw =
     \<lparr>m_user = dget (strs raw) ''user'' [],
      m_text = dget (strs raw) ''text'' [],
      m_ts = dget (strs raw) ''ts'' [],
      m_thread_ts = dget (strs raw) ''thread_ts'' [],
      m_replies = [],
      m_attachments = map parse_attachment (dget (lists raw) ''attachments'' []),
      m_files = map parse_file (dget (lists raw) ''files'' []),
      m_subtype = dget (strs raw) ''subtype'' []\<rparr>"

text \<open>
  The pattern \<open>^(?:.+/)?{re.escape(channel_name)}/(\d{4}-\d{2}-\d{2})\.json$\<close>.
\<close>

definition date_pattern :: "string \<Rightarrow> rx" where
  "date_pattern channel_name =
     Seq (Opt (Seq (Plus dot) (Lit ''/'')))
    (Seq (Lit channel_name)
    (Seq (Lit ''/'')
    (Seq (Group (Seq (Rep 4 is_digit) (Seq (Lit ''-'')
                (Seq (Rep 2 is_digit) (Seq (Lit ''-'') (Rep 2 is_digit))))))
    (Seq (Lit ''.json'') Eos))))"

definition date_files :: "archive \<Rightarrow> string \<Rightarrow> (string \<times> string) list" where
  "date_files zf channel_name =
     sort_key fst
       (List.map_filter
          (\<lambda>name. case re_match (date_pattern channel_name) name of
                     None \<Rightarrow> None
                   | Some g \<Rightarrow> Some (group1 g, name))
          (namelist zf))"

text \<open>The backfill of the user table from one raw record (the body of the inner loop
  after the append).\<close>

definition backfill :: "users \<Rightarrow> jobj \<Rightarrow> users" where
  "backfill users raw =
     (let uid = dget (strs raw) ''user'' [] in
      if uid \<noteq> [] \<and> users uid = None
      then (let profile = dget (objs raw) ''user_profile'' empty_obj in
            if truthy profile
            then users(uid \<mapsto> \<lparr>u_id = uid,
                                u_name = dget (strs profile) ''name'' [],
                                u_display_name = dget (strs profile) ''display_name'' [],
                                u_real_name = dget (strs profile) ''real_name'' []\<rparr>)
            else users)
      else users)"

fun read_records :: "jobj list \<Rightarrow> Message list \<times> users \<Rightarrow> Message list \<times> users" where
  "read_records [] st = st"
| "read_records (raw # data) (all_messages, users) =
     read_records data (all_messages @ [parse_message raw], backfill users raw)"

text \<open>
  The loop over the day files. The user table is the caller's object, so what was
  inserted before an exception stays inserted: the table is returned in both cases.
\<close>

fun read_days ::
  "archive \<Rightarrow> (string \<times> string) list \<Rightarrow> Message list \<times> users \<Rightarrow> users \<times> (error + Message list)"
where
  "read_days zf [] (all_messages, users) = (users, Inr all_messages)"
| "read_days zf ((d, filepath) # rest) (all_messages, users) =
     (case read_json zf filepath of
        Inl e \<Rightarrow> (users, Inl e)
      | Inr data \<Rightarrow> read_days zf rest (read_records data (all_messages, users)))"

text \<open>
  A Python \<open>float\<close>: a finite double (as the rational number it is), an infinity or
  not-a-number. \<open>flt_less\<close> is \<open><\<close> on floats: a comparison with not-a-number is
  false. \<open>rank\<close> orders the floats other than not-a-number as \<open><\<close> does.
\<close>

datatype pyfloat = Fin rat | PosInf | NegInf | NaN

fun rank :: "pyfloat \<Rightarrow> int \<times> rat" where
  "rank NegInf = (-1, 0)"
| "rank (Fin x) = (0, x)"
| "rank PosInf = (1, 0)"
| "rank NaN = (2, 0)"

definition flt_less :: "pyfloat \<Rightarrow> pyfloat \<Rightarrow> bool" where
  "flt_less x y = (x \<noteq> NaN \<and> y \<noteq> NaN \<and> rank x < rank y)"

text \<open>
  Python's \<open>float\<close> on a string is a parameter of the model: \<open>None\<close> is its
  \<open>ValueError\<close>, \<open>Some x\<close> the float it returns.
\<close>

type_synonym float_fn = "string \<Rightarrow> pyfloat option"

text \<open>The sort key \<open>float(m.ts) if m.ts else 0.0\<close>.\<close>

definition ts_key :: "float_fn \<Rightarrow> Message \<Rightarrow> error + pyfloat" where
  "ts_key flt m =
     (if m_ts m \<noteq> []
      then (case flt (m_ts m) of None \<Rightarrow> Inl ValueError | Some x \<Rightarrow> Inr x)
      else Inr (Fin 0))"

fun keys_of :: "float_fn \<Rightarrow> Message list \<Rightarrow> error + pyfloat list" where
  "keys_of flt [] = Inr []"
| "keys_of flt (m # ms) =
     (case ts_key flt m of
        Inl e \<Rightarrow> Inl e
      | Inr k \<Rightarrow> (case keys_of flt ms of Inl e \<Rightarrow> Inl e | Inr ks \<Rightarrow> Inr (k # ks)))"

text \<open>
  The order in which \<open>list.sort\<close> leaves a list with the keys \<open>ks\<close>, as the list of the
  old positions. The sort compares keys with \<open><\<close> only and first looks for the run at
  the start of the list: when no key is less than the key before it, the whole list
  is one ascending run and stays as it is. Otherwise, when no key is not-a-number,
  \<open><\<close> orders the keys totally and the sort, being stable, yields the one stable sorted
  order. In the remaining case (a key that is not-a-number, and a key less than the
  key before it) the order depends on how the sort merges its runs; it is the
  parameter \<open>nan_order\<close>, of which the model uses only that \<open>list.sort\<close> permutes the list.
\<close>

fun one_run :: "pyfloat list \<Rightarrow> bool" where
  "one_run (x # y # ks) = (\<not> flt_less y x \<and> one_run (y # ks))"
| "one_run ks = True"

type_synonym nan_sort = "pyfloat list \<Rightarrow> addr list"

definition list_sort_order :: "nan_sort \<Rightarrow> pyfloat list \<Rightarrow> addr list" where
  "list_sort_order nan_order ks =
     (if one_run ks then [0 ..< length ks]
      else if NaN \<notin> set ks then sort_key (\<lambda>a. rank (ks ! a)) [0 ..< length ks]
      else (let order = nan_order ks
            in if sort order = [0 ..< length ks] then order else [0 ..< length ks]))"

text \<open>
  \<open>all_messages.sort(key=...)\<close>: the objects are the addresses \<open>0 ..< n\<close> in the order
  of their creation; the sort computes every key first and raises if one of them
  cannot be computed.
\<close>

definition sort_messages :: "float_fn \<Rightarrow> nan_sort \<Rightarrow> Message list \<Rightarrow> error + addr list" where
  "sort_messages flt nan_order ms =
     (case keys_of flt ms of
        Inl e \<Rightarrow> Inl e
      | Inr ks \<Rightarrow> Inr (list_sort_order nan_order ks))"

text \<open>Thread assembly: the state of the loop over the sorted messages.\<close>

record asm =
  heap :: "Message list"
  top_level :: "addr list"
  parents :: "string \<rightharpoonup> addr"

definition is_reply :: "Message \<Rightarrow> bool" where
  "is_reply msg = (m_thread_ts msg \<noteq> [] \<and> m_thread_ts msg \<noteq> m_ts msg)"

definition assemble_step :: "asm \<Rightarrow> addr \<Rightarrow> asm" where
  "assemble_step st a =
     (let msg = heap st ! a in
      if \<not> is_reply msg
      then st\<lparr>top_level := top_level st @ [a], parents := (parents st)(m_ts msg \<mapsto> a)\<rparr>
      else (case parents st (m_thread_ts msg) of
              Some parent \<Rightarrow>
                st\<lparr>heap := (heap st)[parent :=
                       (heap st ! parent)\<lparr>m_replies := m_replies (heap st ! parent) @ [a]\<rparr>]\<rparr>
            | None \<Rightarrow> st\<lparr>top_level := top_level st @ [a]\<rparr>))"

definition assemble :: "Message list \<Rightarrow> addr list \<Rightarrow> asm" where
  "assemble ms order =
     foldl assemble_step \<lparr>heap = ms, top_level = [], parents = Map.empty\<rparr> order"

text \<open>
  \<open>load_channel_messages\<close> returns the user table as the call leaves it and either
  the exception or the objects together with the list of top-level addresses.
\<close>

definition load_channel_messages ::
  "float_fn \<Rightarrow> nan_sort \<Rightarrow> archive \<Rightarrow> string \<Rightarrow> users \<Rightarrow>
     users \<times> (error + Message list \<times> addr list)"
where
  "load_channel_messages flt nan_order zf channel_name users =
     (case read_days zf (date_files zf channel_name) ([], users) of
        (users', Inl e) \<Rightarrow> (users', Inl e)
      | (users', Inr all_messages) \<Rightarrow>
          (case sort_messages flt nan_order all_messages of
             Inl e \<Rightarrow> (users', Inl e)
           | Inr order \<Rightarrow>
               (let st = assemble all_messages order
                in (users', Inr (heap st, top_level st)))))"

text \<open>
  A float function for evaluating examples: it reads a plain decimal literal (an
  optional sign, digits, an optional point and digits) as the number it denotes, and
  \<open>nan\<close>, \<open>inf\<close> and \<open>infinity\<close> with an optional sign. \<open>keep_order\<close> stands for the
  parameter \<open>nan_order\<close> in examples.
\<close>

definition digits_value :: "string \<Rightarrow> int" where
  "digits_value ds = foldl (\<lambda>a c. 10 * a + (of_char c - 48)) 0 ds"

definition decimal_float :: float_fn where
  "decimal_float s =
     (let neg = (take 1 s = ''-'');
          r = (if take 1 s = ''-'' \<or> take 1 s = ''+'' then drop 1 s else s);
          ip = takeWhile is_digit r;
          r' = dropWhile is_digit r;
          fp = drop 1 r';
          v = of_int (digits_value ip) + of_int (digits_value fp) / 10 ^ length fp
      in if r = ''nan'' then Some NaN
         else if r = ''inf'' \<or> r = ''infinity'' then Some (if neg then NegInf else PosInf)
         else if (r' = [] \<or> take 1 r' = ''.'') \<and> list_all is_digit fp \<and> (ip \<noteq> [] \<or> fp \<noteq> [])
         then Some (Fin (if neg then - v else v))
         else None)"

definition keep_order :: nan_sort where
  "keep_order ks = [0 ..< length ks]"

section \<open>formatter.py\<close>

subsection \<open>Dates and times\<close>

text \<open>
  \<open>datetime.fromtimestamp(x, tz=timezone.utc)\<close> for a float \<open>x\<close>. The conversion rounds
  \<open>x\<close> to whole microseconds (half to even, computed in double arithmetic); the
  number of microseconds it arrives at for a finite \<open>x\<close> is the parameter \<open>micros\<close> of
  the model. It raises \<open>ValueError\<close> for not-a-number, \<open>OverflowError\<close> for an infinity
  and for seconds outside the range of the platform's \<open>time_t\<close> (64 bits here), and
  \<open>ValueError\<close> for a year outside 1 to 9999 (or \<open>OSError\<close>, when the C library's
  \<open>gmtime\<close> fails first; the callers catch both alike). The calendar date of a day
  number is computed as \<open>datetime\<close> does it, with the proleptic Gregorian calendar;
  day 1 is 0001-01-01 and 1970-01-01 is day 719163.
\<close>

record datetime =
  dt_year :: int
  dt_month :: int
  dt_day :: int
  dt_hour :: int
  dt_minute :: int
  dt_second :: int
  dt_microsecond :: int

definition is_leap :: "int \<Rightarrow> bool" where
  "is_leap y = (y mod 4 = 0 \<and> (y mod 100 \<noteq> 0 \<or> y mod 400 = 0))"

definition days_in_month :: "bool \<Rightarrow> int \<Rightarrow> int" where
  "days_in_month leap m =
     (if m = 2 then (if leap then 29 else 28)
      else if m = 4 \<or> m = 6 \<or> m = 9 \<or> m = 11 then 30 else 31)"

definition days_before_month :: "bool \<Rightarrow> int \<Rightarrow> int" where
  "days_before_month leap m =
     [0, 0, 31, 59, 90, 120, 151, 181, 212, 243, 273, 304, 334] ! nat m
       + (if 2 < m \<and> leap then 1 else 0)"

definition days_before_year :: "int \<Rightarrow> int" where
  "days_before_year y = (y - 1) * 365 + (y - 1) div 4 - (y - 1) div 100 + (y - 1) div 400"

definition ymd2ord :: "int \<Rightarrow> int \<Rightarrow> int \<Rightarrow> int" where
  "ymd2ord y m d = days_before_year y + days_before_month (is_leap y) m + d"

definition ord2ymd :: "int \<Rightarrow> int \<times> int \<times> int" where
  "ord2ymd ord =
     (let n = ord - 1;
          n400 = n div 146097; n = n mod 146097;
          n100 = n div 36524; n = n mod 36524;
          n4 = n div 1461; n = n mod 1461;
          n1 = n div 365; n = n mod 365;
          year = n400 * 400 + 1 + n100 * 100 + n4 * 4 + n1
      in if n1 = 4 \<or> n100 = 4 then (year - 1, 12, 31)
         else (let leapyear = (n1 = 3 \<and> (n4 \<noteq> 24 \<or> n100 = 3));
                   month = (n + 50) div 32;
                   preceding = days_before_month leapyear month
               in if preceding > n
                  then (year, month - 1,
                        n - (preceding - days_in_month leapyear (month - 1)) + 1)
                  else (year, month, n - preceding + 1)))"

definition fromtimestamp :: "(rat \<Rightarrow> int) \<Rightarrow> pyfloat \<Rightarrow> error + datetime" where
  "fromtimestamp micros x =
     (case x of
        NaN \<Rightarrow> Inl ValueError
      | PosInf \<Rightarrow> Inl OverflowError
      | NegInf \<Rightarrow> Inl OverflowError
      | Fin q \<Rightarrow>
          (let us = micros q; secs = us div 1000000 in
           if secs < - (2 ^ 63) \<or> 2 ^ 63 \<le> secs then Inl OverflowError
           else (let ord = secs div 86400 + 719163; sod = secs mod 86400 in
                 if ord < 1 \<or> 3652059 < ord then Inl ValueError
                 else (case ord2ymd ord of (y, m, d) \<Rightarrow>
                         Inr \<lparr>dt_year = y, dt_month = m, dt_day = d,
                              dt_hour = sod div 3600, dt_minute = sod mod 3600 div 60,
                              dt_second = sod mod 60, dt_microsecond = us mod 1000000\<rparr>))))"

text \<open>An exact rounding to microseconds, half to even, for evaluating examples.\<close>

definition exact_micros :: "rat \<Rightarrow> int" where
  "exact_micros q =
     (let y = q * 1000000; f = \<lfloor>y\<rfloor>; r = y - of_int f
      in if r < 1 / 2 then f else if 1 / 2 < r then f + 1 else if even f then f else f + 1)"

text \<open>Decimal digits of a number, and padding with zeros on the left.\<close>

function digits :: "int \<Rightarrow> string" where
  "digits n = (if n < 10 then [char_of (48 + n)] else digits (n div 10) @ [char_of (48 + n mod 10)])"
  by pat_completeness auto
termination
  by (relation "measure nat") auto

declare digits.simps [simp del]

definition zfill :: "nat \<Rightarrow> string \<Rightarrow> string" where
  "zfill k s = replicate (k - length s) (CHR ''0'') @ s"

definition hour12 :: "int \<Rightarrow> int" where
  "hour12 h = (if h mod 12 = 0 then 12 else h mod 12)"

text \<open>\<open>dt.strftime("%I:%M %p")\<close> and \<open>dt.strftime("%Y-%m-%d")\<close>, in the C locale.\<close>

definition strftime_IMp :: "datetime \<Rightarrow> string" where
  "strftime_IMp dt =
     zfill 2 (digits (hour12 (dt_hour dt))) @ '':'' @ zfill 2 (digits (dt_minute dt))
       @ '' '' @ (if dt_hour dt < 12 then ''AM'' else ''PM'')"

definition strftime_Ymd :: "datetime \<Rightarrow> string" where
  "strftime_Ymd dt =
     zfill 4 (digits (dt_year dt)) @ ''-'' @ zfill 2 (digits (dt_month dt))
       @ ''-'' @ zfill 2 (digits (dt_day dt))"

definition lstrip :: "char \<Rightarrow> string \<Rightarrow> string" where
  "lstrip c s = dropWhile (\<lambda>x. x = c) s"

text \<open>
  \<open>_format_timestamp\<close> and \<open>_format_date\<close>: the \<open>except ValueError, OSError\<close> clause
  catches these two exceptions of \<open>float\<close> and \<open>fromtimestamp\<close>; any other exception
  leaves the function.
\<close>

definition format_timestamp :: "float_fn \<Rightarrow> (rat \<Rightarrow> int) \<Rightarrow> string \<Rightarrow> error + string" where
  "format_timestamp flt micros ts =
     (case (case flt ts of None \<Rightarrow> Inl ValueError | Some x \<Rightarrow> fromtimestamp micros x) of
        Inr dt \<Rightarrow> Inr (lstrip (CHR ''0'') (strftime_IMp dt))
      | Inl e \<Rightarrow> if e = ValueError \<or> e = OSError then Inr ts else Inl e)"

definition format_date :: "float_fn \<Rightarrow> (rat \<Rightarrow> int) \<Rightarrow> string \<Rightarrow> error + string" where
  "format_date flt micros ts =
     (case (case flt ts of None \<Rightarrow> Inl ValueError | Some x \<Rightarrow> fromtimestamp micros x) of
        Inr dt \<Rightarrow> Inr (strftime_Ymd dt)
      | Inl e \<Rightarrow> if e = ValueError \<or> e = OSError then Inr [] else Inl e)"

subsection \<open>Slack mrkdwn to Markdown\<close>

definition not_gt :: "char \<Rightarrow> bool" where
  "not_gt c = (c \<noteq> CHR ''>'')"

text \<open>The pattern \<open><@(\w+)(?:\|[^>]*)?>\<close> and its replacement function.\<close>

definition user_mention_rx :: rx where
  "user_mention_rx =
     Seq (Lit ''<@'') (Seq (Group (Plus is_word))
    (Seq (Opt (Seq (Lit ''|'') (Star not_gt))) (Lit ''>'')))"

definition replace_user_mention :: "users \<Rightarrow> string list \<Rightarrow> string" where
  "replace_user_mention users g =
     (let uid = group1 g;
          lbl = (case users uid of Some user \<Rightarrow> label user | None \<Rightarrow> uid)
      in ''**@'' @ lbl @ ''**'')"

text \<open>\<open><#\w+\|([^>]+)>\<close>, \<open><!subteam\^\w+\|(@[^>]+)>\<close>, \<open><!here(?:\|[^>]*)?>\<close> (and the
  same for \<open>channel\<close> and \<open>everyone\<close>), \<open><(https?://[^>]+)>\<close>.\<close>

definition channel_mention_rx :: rx where
  "channel_mention_rx =
     Seq (Lit ''<#'') (Seq (Plus is_word) (Seq (Lit ''|'') (Seq (Group (Plus not_gt)) (Lit ''>''))))"

definition subteam_rx :: rx where
  "subteam_rx =
     Seq (Lit ''<!subteam^'') (Seq (Plus is_word) (Seq (Lit ''|'')
    (Seq (Group (Seq (Lit ''@'') (Plus not_gt))) (Lit ''>''))))"

definition special_rx :: "string \<Rightarrow> rx" where
  "special_rx word =
     Seq (Lit (''<!'' @ word)) (Seq (Opt (Seq (Lit ''|'') (Star not_gt))) (Lit ''>''))"

definition link_rx :: rx where
  "link_rx =
     Seq (Lit ''<'')
    (Seq (Group (Seq (Lit ''http'') (Seq (Opt (Lit ''s'')) (Seq (Lit ''://'') (Plus not_gt)))))
         (Lit ''>''))"

definition replace_link :: "string list \<Rightarrow> string" where
  "replace_link g =
     (let content = group1 g in
      if CHR ''|'' \<in> set content
      then (let url = takeWhile (\<lambda>c. c \<noteq> CHR ''|'') content;
                lbl = drop 1 (dropWhile (\<lambda>c. c \<noteq> CHR ''|'') content)
            in ''['' @ lbl @ '']('' @ url @ '')'')
      else content)"

text \<open>
  The three patterns of \<open>_convert_slack_formatting\<close>:
  \<open>(?<!\*)\*(?!\*)(.+?)(?<!\*)\*(?!\*)\<close>, \<open>(?<![_\w])_(?!_)(.+?)(?<!_)_(?![_\w])\<close> and
  \<open>(?<!~)~(?!~)(.+?)(?<!~)~(?!~)\<close>.
\<close>

definition delimited_rx :: "string \<Rightarrow> (char \<Rightarrow> bool) \<Rightarrow> (char \<Rightarrow> bool) \<Rightarrow> rx" where
  "delimited_rx d outer inner =
     Seq (NotBehind outer) (Seq (Lit d) (Seq (NotAhead inner)
    (Seq (Group (LazyPlus dot))
    (Seq (NotBehind inner) (Seq (Lit d) (NotAhead outer))))))"

definition bold_rx :: rx where
  "bold_rx = delimited_rx ''*'' (\<lambda>c. c = CHR ''*'') (\<lambda>c. c = CHR ''*'')"

definition italic_rx :: rx where
  "italic_rx = delimited_rx ''_'' (\<lambda>c. c = CHR ''_'' \<or> is_word c) (\<lambda>c. c = CHR ''_'')"

definition strike_rx :: rx where
  "strike_rx = delimited_rx ''~'' (\<lambda>c. c = CHR ''~'') (\<lambda>c. c = CHR ''~'')"

definition emphasis :: "string \<Rightarrow> string" where
  "emphasis part =
     re_sub strike_rx (\<lambda>g. ''~~'' @ group1 g @ ''~~'')
       (re_sub italic_rx (\<lambda>g. ''*'' @ group1 g @ ''*'')
          (re_sub bold_rx (\<lambda>g. ''**'' @ group1 g @ ''**'') part))"

text \<open>\<open>s.find(sub)\<close>: the offset of the first occurrence of \<open>sub\<close> in \<open>s\<close>, if there is one.\<close>

fun find_sub :: "string \<Rightarrow> string \<Rightarrow> nat option" where
  "find_sub sub [] = (if sub = [] then Some 0 else None)"
| "find_sub sub (c # cs) =
     (if take (length sub) (c # cs) = sub then Some 0
      else map_option Suc (find_sub sub cs))"

text \<open>
  The first loop of \<open>_convert_slack_formatting\<close>. In \<open>split_code buf rest\<close>, \<open>rest\<close> is
  \<open>text[i:]\<close> and \<open>buf\<close> is \<open>text[buf_start:i]\<close>; the result is the list \<open>parts\<close> from
  here on, including the part that is appended after the loop.
\<close>

function split_code :: "string \<Rightarrow> string \<Rightarrow> string list" where
  "split_code buf [] = (if buf \<noteq> [] then [buf] else [])"
| "split_code buf (c # cs) =
     (if take 3 (c # cs) = ''```''
      then (if buf \<noteq> [] then [buf] else []) @
           (case find_sub ''```'' (drop 3 (c # cs)) of
              Some k \<Rightarrow> take (k + 6) (c # cs) # split_code [] (drop (k + 6) (c # cs))
            | None \<Rightarrow> [c # cs])
      else if c = CHR ''`''
      then (case find_sub ''`'' cs of
              Some k \<Rightarrow> (if buf \<noteq> [] then [buf] else []) @
                        take (k + 2) (c # cs) # split_code [] (drop (k + 2) (c # cs))
            | None \<Rightarrow> split_code (buf @ [c]) cs)
      else split_code (buf @ [c]) cs)"
  by pat_completeness auto
termination
  by (relation "measure (\<lambda>(buf, rest). length rest)") auto

definition convert_slack_formatting :: "string \<Rightarrow> string" where
  "convert_slack_formatting text =
     concat (map (\<lambda>part. if take 1 part = ''`'' then part else emphasis part)
                 (split_code [] text))"

definition convert_mrkdwn :: "string \<Rightarrow> users \<Rightarrow> string" where
  "convert_mrkdwn text users =
     convert_slack_formatting
       (re_sub link_rx replace_link
       (re_sub (special_rx ''everyone'') (\<lambda>g. ''@everyone'')
       (re_sub (special_rx ''channel'') (\<lambda>g. ''@channel'')
       (re_sub (special_rx ''here'') (\<lambda>g. ''@here'')
       (re_sub subteam_rx group1
       (re_sub channel_mention_rx (\<lambda>g. ''#'' @ group1 g)
       (re_sub user_mention_rx (replace_user_mention users) text)))))))"

subsection \<open>Messages\<close>

definition join :: "string \<Rightarrow> string list \<Rightarrow> string" where
  "join sep xs = (case xs of [] \<Rightarrow> [] | x # ys \<Rightarrow> x @ concat (map (\<lambda>y. sep @ y) ys))"

definition author_of :: "users \<Rightarrow> Message \<Rightarrow> string" where
  "author_of users msg =
     (case users (m_user msg) of
        Some user \<Rightarrow> label user
      | None \<Rightarrow> if m_user msg \<noteq> [] then m_user msg else ''unknown'')"

definition attachment_lines :: "string \<Rightarrow> Attachment \<Rightarrow> string list" where
  "attachment_lines pfx att =
     (if a_from_url att \<noteq> []
      then (let lbl = (if a_title att \<noteq> [] then a_title att
                       else if a_fallback att \<noteq> [] then a_fallback att else ''Link'')
            in [pfx @ ''['' @ lbl @ '']('' @ a_from_url att @ '')''])
      else if a_title att \<noteq> [] \<or> a_fallback att \<noteq> []
      then [pfx @ ''[Attachment: '' @
              (if a_title att \<noteq> [] then a_title att else a_fallback att) @ '']'']
      else [])"

definition file_line :: "string \<Rightarrow> File \<Rightarrow> string" where
  "file_line pfx f =
     (let url = (if f_permalink f \<noteq> [] then f_permalink f else f_url_private f);
          name = (if f_name f \<noteq> [] then f_name f else ''File'')
      in if url \<noteq> [] then pfx @ ''['' @ name @ '']('' @ url @ '')''
         else pfx @ ''[Attachment: '' @ name @ '']'')"

definition format_message ::
  "float_fn \<Rightarrow> (rat \<Rightarrow> int) \<Rightarrow> Message \<Rightarrow> users \<Rightarrow> bool \<Rightarrow> error + string"
where
  "format_message flt micros msg users indent =
     (let author = author_of users msg in
      case format_timestamp flt micros (m_ts msg) of
        Inl e \<Rightarrow> Inl e
      | Inr time_str \<Rightarrow>
          (let text = convert_mrkdwn (m_text msg) users;
               pfx = (if indent then ''  '' else []);
               thread_label = (if indent then '' [thread]'' else []);
               header = pfx @ ''**@'' @ author @ ''** ('' @ time_str @ '')'' @ thread_label @ '':''
           in Inr (join [CHR 0x0A]
                     ([header]
                      @ (if text \<noteq> [] then map (\<lambda>line. pfx @ line) (split_on (CHR 0x0A) text)
                         else [])
                      @ concat (map (attachment_lines pfx) (m_attachments msg))
                      @ map (file_line pfx) (m_files msg)))))"

section \<open>Thread assembly: the loop invariant\<close>


definition replies_of :: "asm \<Rightarrow> addr \<Rightarrow> addr list" where
  "replies_of st p = m_replies (heap st ! p)"

definition placed :: "asm \<Rightarrow> addr list" where
  "placed st = top_level st @ concat (map (replies_of st) (top_level st))"

definition registered_before :: "Message list \<Rightarrow> addr list \<Rightarrow> addr \<Rightarrow> bool" where
  "registered_before ms order a =
     list_ex (\<lambda>b. \<not> is_reply (ms ! b) \<and> m_ts (ms ! b) = m_thread_ts (ms ! a))
       (takeWhile (\<lambda>b. b \<noteq> a) order)"

definition asm_inv :: "Message list \<Rightarrow> addr list \<Rightarrow> asm \<Rightarrow> bool" where
  "asm_inv ms done st \<longleftrightarrow>
     length (heap st) = length ms \<and>
     (\<forall>a < length ms. heap st ! a = (ms ! a)\<lparr>m_replies := replies_of st a\<rparr>) \<and>
     subseq (top_level st) done \<and>
     (\<forall>p < length ms. subseq (replies_of st p) done) \<and>
     (\<forall>p < length ms. replies_of st p \<noteq> [] \<longrightarrow> p \<in> set (top_level st) \<and> \<not> is_reply (ms ! p)) \<and>
     (\<forall>p < length ms. \<forall>r \<in> set (replies_of st p). is_reply (ms ! r)) \<and>
     distinct (placed st) \<and> set (placed st) = set done \<and>
     (\<forall>k p. parents st k = Some p \<longrightarrow>
        p \<in> set (top_level st) \<and> p < length ms \<and> \<not> is_reply (ms ! p)) \<and>
     (\<forall>k. parents st k \<noteq> None \<longleftrightarrow>
        (\<exists>b \<in> set done. \<not> is_reply (ms ! b) \<and> m_ts (ms ! b) = k)) \<and>
     (\<forall>a \<in> set done. a \<in> set (top_level st) \<longleftrightarrow>
        \<not> (is_reply (ms ! a) \<and> registered_before ms done a))"

lemma is_reply_frame: "is_reply (m\<lparr>m_replies := r\<rparr>) = is_reply m"
  by (simp add: is_reply_def)

lemma asm_inv_init:
  assumes "\<forall>m \<in> set ms. m_replies m = []"
  shows "asm_inv ms [] \<lparr>heap = ms, top_level = [], parents = Map.empty\<rparr>"
  using assms by (simp add: asm_inv_def replies_of_def placed_def)

lemma takeWhile_snoc_in: "a \<in> set xs \<Longrightarrow> takeWhile (\<lambda>b. b \<noteq> a) (xs @ [c]) = takeWhile (\<lambda>b. b \<noteq> a) xs"
  by (induction xs) auto

lemma takeWhile_snoc_notin: "a \<notin> set xs \<Longrightarrow> takeWhile (\<lambda>b. b \<noteq> a) (xs @ [a]) = xs"
  by (induction xs) auto

lemma registered_before_snoc_old:
  "a \<in> set xs \<Longrightarrow> registered_before ms (xs @ [c]) a = registered_before ms xs a"
  by (simp add: registered_before_def takeWhile_snoc_in)

lemma registered_before_snoc_new:
  "a \<notin> set xs \<Longrightarrow> registered_before ms (xs @ [a]) a
     = (\<exists>b \<in> set xs. \<not> is_reply (ms ! b) \<and> m_ts (ms ! b) = m_thread_ts (ms ! a))"
  by (simp add: registered_before_def takeWhile_snoc_notin list_ex_iff)

lemma subseq_subset: "subseq xs ys \<Longrightarrow> set xs \<subseteq> set ys"
  by (auto elim: list_emb_set)

lemma step_top:
  assumes inv: "asm_inv ms done st" and a: "a < length ms" "a \<notin> set done"
    and st': "st' = st\<lparr>top_level := top_level st @ [a], parents := P\<rparr>"
    and P: "\<forall>k p. P k = Some p \<longrightarrow> p \<in> set (top_level st @ [a]) \<and> p < length ms \<and> \<not> is_reply (ms ! p)"
    and Pdom: "\<forall>k. P k \<noteq> None \<longleftrightarrow> (\<exists>b \<in> set (done @ [a]). \<not> is_reply (ms ! b) \<and> m_ts (ms ! b) = k)"
    and reg: "\<not> (is_reply (ms ! a) \<and> (\<exists>b \<in> set done. \<not> is_reply (ms ! b) \<and> m_ts (ms ! b) = m_thread_ts (ms ! a)))"
  shows "asm_inv ms (done @ [a]) st'"
proof -
  have rep: "replies_of st' = replies_of st" by (simp add: st' replies_of_def fun_eq_iff)
  have top_sub: "set (top_level st) \<subseteq> set done"
    using inv by (simp add: asm_inv_def subseq_subset)
  have a_top: "a \<notin> set (top_level st)" using top_sub a by auto
  have ra: "replies_of st a = []" using inv a a_top by (auto simp: asm_inv_def)
  have tl: "top_level st' = top_level st @ [a]" by (simp add: st')
  have pl: "placed st' = top_level st @ [a] @ concat (map (replies_of st) (top_level st))"
    unfolding placed_def rep tl by (simp add: ra)
  have a_pl: "a \<notin> set (placed st)" using inv a by (simp add: asm_inv_def)
  have d: "distinct (placed st') \<and> set (placed st') = set (done @ [a])"
    using inv a_pl unfolding pl by (auto simp: asm_inv_def placed_def)
  have "\<forall>x \<in> set (done @ [a]). x \<in> set (top_level st') \<longleftrightarrow> \<not> (is_reply (ms ! x) \<and> registered_before ms (done @ [a]) x)"
  proof
    fix x assume x: "x \<in> set (done @ [a])"
    show "x \<in> set (top_level st') \<longleftrightarrow> \<not> (is_reply (ms ! x) \<and> registered_before ms (done @ [a]) x)"
    proof (cases "x = a")
      case True
      then show ?thesis using reg a by (simp add: st' registered_before_snoc_new)
    next
      case False
      then have "x \<in> set done" using x by simp
      then show ?thesis using inv False by (simp add: st' registered_before_snoc_old asm_inv_def)
    qed
  qed
  moreover have "subseq (top_level st') (done @ [a])"
    using inv by (simp add: st' asm_inv_def)
  moreover have "\<forall>p < length ms. subseq (replies_of st' p) (done @ [a])"
    using inv by (auto simp: rep asm_inv_def intro: subseq_rev_drop_many)
  ultimately show ?thesis
    using inv d P Pdom unfolding asm_inv_def[of ms "done @ [a]"] rep
    by (simp add: st' asm_inv_def replies_of_def)
qed

lemma concat_map_upd:
  assumes "distinct xs" "p \<in> set xs" "\<forall>q. q \<noteq> p \<longrightarrow> g q = f q" "g p = f p @ [a]"
  shows "set (concat (map g xs)) = insert a (set (concat (map f xs)))"
    and "a \<notin> set (concat (map f xs)) \<Longrightarrow> distinct (concat (map f xs)) \<Longrightarrow> distinct (concat (map g xs))"
proof -
  from assms(2) obtain ys zs where xs: "xs = ys @ p # zs" by (auto dest: split_list)
  with assms(1) have np: "p \<notin> set ys" "p \<notin> set zs" by auto
  have gy: "map g ys = map f ys" using np assms(3) by (auto simp: map_eq_conv)
  have gz: "map g zs = map f zs" using np assms(3) by (auto simp: map_eq_conv)
  show "set (concat (map g xs)) = insert a (set (concat (map f xs)))"
    by (auto simp: xs gy gz assms(4))
  show "a \<notin> set (concat (map f xs)) \<Longrightarrow> distinct (concat (map f xs)) \<Longrightarrow> distinct (concat (map g xs))"
    by (auto simp: xs gy gz assms(4))
qed

lemma step_reply:
  assumes inv: "asm_inv ms done st" and a: "a < length ms" "a \<notin> set done"
    and rp: "is_reply (ms ! a)"
    and par: "parents st (m_thread_ts (ms ! a)) = Some p"
    and st': "st' = st\<lparr>heap := (heap st)[p := (heap st ! p)\<lparr>m_replies := m_replies (heap st ! p) @ [a]\<rparr>]\<rparr>"
  shows "asm_inv ms (done @ [a]) st'"
proof -
  have p: "p \<in> set (top_level st)" "p < length ms" "\<not> is_reply (ms ! p)"
    using inv par by (auto simp: asm_inv_def)
  have len: "length (heap st) = length ms" using inv by (simp add: asm_inv_def)
  have rep_p: "replies_of st' p = replies_of st p @ [a]"
    using p len by (simp add: st' replies_of_def)
  have rep_q: "\<forall>q. q \<noteq> p \<longrightarrow> replies_of st' q = replies_of st q"
    by (simp add: st' replies_of_def)
  have top_d: "distinct (top_level st)" using inv by (simp add: asm_inv_def placed_def)
  have top_sub: "set (top_level st) \<subseteq> set done"
    using inv by (simp add: asm_inv_def subseq_subset)
  have a_pl: "a \<notin> set (placed st)" using inv a by (simp add: asm_inv_def)
  have pa: "p \<noteq> a" using p top_sub a by auto
  have s: "set (concat (map (replies_of st') (top_level st))) = insert a (set (concat (map (replies_of st) (top_level st))))"
    using concat_map_upd(1)[OF top_d p(1) rep_q rep_p] .
  have d: "distinct (concat (map (replies_of st') (top_level st)))"
    using concat_map_upd(2)[OF top_d p(1) rep_q rep_p] a_pl inv
    by (simp add: placed_def asm_inv_def)
  have pl: "distinct (placed st') \<and> set (placed st') = set (done @ [a])"
  proof -
    have "top_level st' = top_level st" by (simp add: st')
    then have e: "placed st' = top_level st @ concat (map (replies_of st') (top_level st))"
      by (simp add: placed_def)
    have "distinct (placed st)" "set (placed st) = set done" using inv by (simp_all add: asm_inv_def)
    then show ?thesis unfolding e using s d a_pl top_sub a
      by (auto simp: placed_def)
  qed
  have frame: "\<forall>x < length ms. heap st' ! x = (ms ! x)\<lparr>m_replies := replies_of st' x\<rparr>"
  proof (intro allI impI)
    fix x assume x: "x < length ms"
    have h: "heap st ! x = (ms ! x)\<lparr>m_replies := replies_of st x\<rparr>" using inv x by (simp add: asm_inv_def)
    show "heap st' ! x = (ms ! x)\<lparr>m_replies := replies_of st' x\<rparr>"
    proof (cases "x = p")
      case True
      have hp: "heap st ! p = (ms ! p)\<lparr>m_replies := replies_of st p\<rparr>" using inv p by (simp add: asm_inv_def)
      have "heap st' ! p = (heap st ! p)\<lparr>m_replies := replies_of st p @ [a]\<rparr>"
        using p len by (simp add: st' replies_of_def)
      also have "\<dots> = (ms ! p)\<lparr>m_replies := replies_of st p @ [a]\<rparr>" by (subst hp) simp
      finally show ?thesis using True rep_p by simp
    next
      case False
      then show ?thesis using h rep_q by (simp add: st')
    qed
  qed
  have sub: "\<forall>q < length ms. subseq (replies_of st' q) (done @ [a])"
  proof (intro allI impI)
    fix q assume q: "q < length ms"
    have "subseq (replies_of st q) done" using inv q by (simp add: asm_inv_def)
    then show "subseq (replies_of st' q) (done @ [a])"
      using rep_p rep_q by (cases "q = p") (auto intro: subseq_rev_drop_many)
  qed
  have ne: "\<forall>q < length ms. replies_of st' q \<noteq> [] \<longrightarrow> q \<in> set (top_level st') \<and> \<not> is_reply (ms ! q)"
  proof (intro allI impI)
    fix q assume q: "q < length ms" "replies_of st' q \<noteq> []"
    show "q \<in> set (top_level st') \<and> \<not> is_reply (ms ! q)"
    proof (cases "q = p")
      case True then show ?thesis using p by (simp add: st')
    next
      case False
      then show ?thesis using q rep_q inv by (simp add: st' asm_inv_def)
    qed
  qed
  have rr: "\<forall>q < length ms. \<forall>r \<in> set (replies_of st' q). is_reply (ms ! r)"
  proof (intro allI impI ballI)
    fix q r assume q: "q < length ms" "r \<in> set (replies_of st' q)"
    show "is_reply (ms ! r)"
    proof (cases "q = p")
      case True
      then show ?thesis using q rep_p rp inv by (auto simp: asm_inv_def)
    next
      case False
      then show ?thesis using q rep_q inv by (auto simp: asm_inv_def)
    qed
  qed
  have reg: "\<forall>x \<in> set (done @ [a]). x \<in> set (top_level st') \<longleftrightarrow> \<not> (is_reply (ms ! x) \<and> registered_before ms (done @ [a]) x)"
  proof
    fix x assume x: "x \<in> set (done @ [a])"
    show "x \<in> set (top_level st') \<longleftrightarrow> \<not> (is_reply (ms ! x) \<and> registered_before ms (done @ [a]) x)"
    proof (cases "x = a")
      case True
      have "parents st (m_thread_ts (ms ! a)) \<noteq> None" using par by simp
      then have "\<exists>b \<in> set done. \<not> is_reply (ms ! b) \<and> m_ts (ms ! b) = m_thread_ts (ms ! a)"
        using inv unfolding asm_inv_def by blast
      then show ?thesis using True rp a top_sub by (auto simp: st' registered_before_snoc_new)
    next
      case False
      then have "x \<in> set done" using x by simp
      then show ?thesis using inv False by (simp add: st' registered_before_snoc_old asm_inv_def)
    qed
  qed
  have pdom: "\<forall>k. parents st' k \<noteq> None \<longleftrightarrow> (\<exists>b \<in> set (done @ [a]). \<not> is_reply (ms ! b) \<and> m_ts (ms ! b) = k)"
  proof -
    have "\<forall>k. parents st k \<noteq> None \<longleftrightarrow> (\<exists>b \<in> set done. \<not> is_reply (ms ! b) \<and> m_ts (ms ! b) = k)"
      using inv unfolding asm_inv_def by blast
    then show ?thesis using rp by (auto simp: st')
  qed
  have pran: "\<forall>k q. parents st' k = Some q \<longrightarrow> q \<in> set (top_level st') \<and> q < length ms \<and> \<not> is_reply (ms ! q)"
    using inv by (simp add: st' asm_inv_def)
  have "subseq (top_level st') (done @ [a])"
    using inv by (auto simp: st' asm_inv_def intro: subseq_rev_drop_many)
  then show ?thesis
    unfolding asm_inv_def[of ms "done @ [a]"]
    using len frame sub ne rr pl reg pdom pran by (simp add: st')
qed

lemma assemble_step_inv:
  assumes inv: "asm_inv ms done st" and a: "a < length ms" "a \<notin> set done"
  shows "asm_inv ms (done @ [a]) (assemble_step st a)"
proof -
  have h: "heap st ! a = (ms ! a)\<lparr>m_replies := replies_of st a\<rparr>" using inv a by (simp add: asm_inv_def)
  have ir: "is_reply (heap st ! a) = is_reply (ms ! a)" by (subst h) (simp add: is_reply_frame)
  have ts: "m_ts (heap st ! a) = m_ts (ms ! a)" "m_thread_ts (heap st ! a) = m_thread_ts (ms ! a)"
    by (subst h, simp)+
  have top_sub: "set (top_level st) \<subseteq> set done"
    using inv by (simp add: asm_inv_def subseq_subset)
  have pdom: "\<forall>k. parents st k \<noteq> None \<longleftrightarrow> (\<exists>b \<in> set done. \<not> is_reply (ms ! b) \<and> m_ts (ms ! b) = k)"
    using inv unfolding asm_inv_def by blast
  have pran: "\<forall>k q. parents st k = Some q \<longrightarrow> q \<in> set (top_level st) \<and> q < length ms \<and> \<not> is_reply (ms ! q)"
    using inv unfolding asm_inv_def by blast
  show ?thesis
  proof (cases "is_reply (ms ! a)")
    case False
    have e: "assemble_step st a = st\<lparr>top_level := top_level st @ [a], parents := (parents st)(m_ts (ms ! a) \<mapsto> a)\<rparr>"
      using False ir ts by (simp add: assemble_step_def Let_def)
    show ?thesis
    proof (rule step_top[OF inv a e])
      show "\<forall>k p. ((parents st)(m_ts (ms ! a) \<mapsto> a)) k = Some p \<longrightarrow> p \<in> set (top_level st @ [a]) \<and> p < length ms \<and> \<not> is_reply (ms ! p)"
        using pran False a by auto
      show "\<forall>k. ((parents st)(m_ts (ms ! a) \<mapsto> a)) k \<noteq> None \<longleftrightarrow> (\<exists>b \<in> set (done @ [a]). \<not> is_reply (ms ! b) \<and> m_ts (ms ! b) = k)"
        using pdom False by auto
      show "\<not> (is_reply (ms ! a) \<and> (\<exists>b \<in> set done. \<not> is_reply (ms ! b) \<and> m_ts (ms ! b) = m_thread_ts (ms ! a)))"
        using False by simp
    qed
  next
    case True
    show ?thesis
    proof (cases "parents st (m_thread_ts (ms ! a))")
      case None
      have e: "assemble_step st a = st\<lparr>top_level := top_level st @ [a], parents := parents st\<rparr>"
        using True None ir ts by (simp add: assemble_step_def Let_def)
      show ?thesis
      proof (rule step_top[OF inv a e])
        show "\<forall>k p. parents st k = Some p \<longrightarrow> p \<in> set (top_level st @ [a]) \<and> p < length ms \<and> \<not> is_reply (ms ! p)"
          using pran by auto
        show "\<forall>k. parents st k \<noteq> None \<longleftrightarrow> (\<exists>b \<in> set (done @ [a]). \<not> is_reply (ms ! b) \<and> m_ts (ms ! b) = k)"
          using pdom True by auto
        show "\<not> (is_reply (ms ! a) \<and> (\<exists>b \<in> set done. \<not> is_reply (ms ! b) \<and> m_ts (ms ! b) = m_thread_ts (ms ! a)))"
          using spec[OF pdom, of "m_thread_ts (ms ! a)"] None by simp
      qed
    next
      case (Some p)
      have e: "assemble_step st a = st\<lparr>heap := (heap st)[p := (heap st ! p)\<lparr>m_replies := m_replies (heap st ! p) @ [a]\<rparr>]\<rparr>"
        using True Some ir ts by (simp add: assemble_step_def Let_def)
      show ?thesis by (rule step_reply[OF inv a True Some e])
    qed
  qed
qed

lemma assemble_inv:
  assumes e: "\<forall>m \<in> set ms. m_replies m = []"
    and d: "distinct order" and b: "set order \<subseteq> {..< length ms}"
  shows "asm_inv ms order (assemble ms order)"
  using d b
proof (induction order rule: rev_induct)
  case Nil
  then show ?case using asm_inv_init[OF e] by (simp add: assemble_def)
next
  case (snoc a order)
  then have "asm_inv ms order (assemble ms order)" by simp
  then have "asm_inv ms (order @ [a]) (assemble_step (assemble ms order) a)"
    using snoc.prems by (intro assemble_step_inv) auto
  then show ?case by (simp add: assemble_def)
qed

definition day_data :: "archive \<Rightarrow> (string \<times> string) list \<Rightarrow> jobj list" where
  "day_data zf files =
     concat (map (\<lambda>(d, filepath). case read_json zf filepath of Inl e \<Rightarrow> [] | Inr data \<Rightarrow> data) files)"

lemma read_records_fst:
  "fst (read_records data (acc, us)) = acc @ map parse_message data"
  by (induction data arbitrary: acc us) simp_all

lemma read_records_eq:
  "read_records data (acc, us) = (ms, us') \<Longrightarrow> ms = acc @ map parse_message data"
  using read_records_fst[of data acc us] by simp

lemma read_days_eq:
  "read_days zf files (acc, us) = (us', Inr ms) \<Longrightarrow> ms = acc @ map parse_message (day_data zf files)"
proof (induction files arbitrary: acc us)
  case Nil
  then show ?case by (simp add: day_data_def)
next
  case (Cons f files)
  obtain d filepath where f: "f = (d, filepath)" by (cases f)
  show ?case
  proof (cases "read_json zf filepath")
    case (Inl e)
    then show ?thesis using Cons.prems f by simp
  next
    case (Inr data)
    obtain acc' us'' where r: "read_records data (acc, us) = (acc', us'')"
      by (cases "read_records data (acc, us)")
    have "ms = acc' @ map parse_message (day_data zf files)"
      using Cons.prems Cons.IH[of acc' us''] f Inr r by simp
    then show ?thesis using read_records_eq[OF r] f Inr by (simp add: day_data_def)
  qed
qed

lemma keys_of_map: "keys_of flt ms = Inr ks \<longleftrightarrow> map (ts_key flt) ms = map Inr ks"
proof (induction ms arbitrary: ks)
  case Nil
  then show ?case by auto
next
  case (Cons m ms)
  show ?case
  proof (cases "ts_key flt m")
    case (Inl e)
    then show ?thesis by (auto simp: Cons_eq_map_conv)
  next
    case k: (Inr k)
    show ?thesis
    proof (cases "keys_of flt ms")
      case (Inl e)
      have "map (ts_key flt) ms \<noteq> map Inr zs" for zs
        using Cons.IH[of zs] Inl by simp
      then show ?thesis using k Inl by (auto simp: Cons_eq_map_conv)
    next
      case (Inr ks')
      then have "map (ts_key flt) ms = map Inr ks'" using Cons.IH[of ks'] by simp
      then show ?thesis using k Inr by (auto simp: Cons_eq_map_conv inj_map_eq_map)
    qed
  qed
qed

lemma ts_key_frame: "ts_key flt (m\<lparr>m_replies := r\<rparr>) = ts_key flt m"
  by (simp add: ts_key_def)

lemma list_sort_order_perm:
  "distinct (list_sort_order nan_order ks) \<and> set (list_sort_order nan_order ks) = {..< length ks}"
proof (cases "one_run ks")
  case True
  then show ?thesis by (auto simp: list_sort_order_def)
next
  case False
  show ?thesis
  proof (cases "NaN \<notin> set ks")
    case True
    then show ?thesis using False by (auto simp: list_sort_order_def)
  next
    case nan: False
    show ?thesis
    proof (cases "sort (nan_order ks) = [0 ..< length ks]")
      case True
      have "distinct (sort (nan_order ks))" "set (sort (nan_order ks)) = {..< length ks}"
        unfolding True by auto
      then have "distinct (nan_order ks)" "set (nan_order ks) = {..< length ks}" by simp_all
      then show ?thesis using False nan True by (simp add: list_sort_order_def)
    next
      case no: False
      have "list_sort_order nan_order ks = [0 ..< length ks]"
        using False nan no by (simp add: list_sort_order_def)
      then show ?thesis by auto
    qed
  qed
qed

lemma keys_of_length: "keys_of flt ms = Inr ks \<Longrightarrow> length ks = length ms"
proof -
  assume "keys_of flt ms = Inr ks"
  then have "map (ts_key flt) ms = map Inr ks" by (simp add: keys_of_map)
  then show ?thesis by (rule map_eq_imp_length_eq[symmetric])
qed

lemma sort_messages_perm:
  assumes "sort_messages flt nan_order ms = Inr order"
  shows "distinct order \<and> set order = {..< length ms}"
proof -
  from assms obtain ks where ks: "keys_of flt ms = Inr ks" and o: "order = list_sort_order nan_order ks"
    by (auto simp: sort_messages_def split: sum.splits)
  show ?thesis using list_sort_order_perm[of nan_order ks] keys_of_length[OF ks] o by simp
qed





text \<open>What a successful load returns, in terms of the loop invariant.\<close>

lemma load_channel_messages_inv:
  assumes "load_channel_messages flt nan_order zf channel_name users = (users', Inr (h, tops))"
  shows "\<exists>ms order st.
           ms = map parse_message (day_data zf (date_files zf channel_name)) \<and>
           sort_messages flt nan_order ms = Inr order \<and>
           st = assemble ms order \<and> h = heap st \<and> tops = top_level st \<and>
           asm_inv ms order st"
proof -
  obtain us r where rd: "read_days zf (date_files zf channel_name) ([], users) = (us, r)"
    by (cases "read_days zf (date_files zf channel_name) ([], users)")
  then obtain ms where r: "r = Inr ms"
    using assms by (cases r) (auto simp: load_channel_messages_def)
  obtain order where so: "sort_messages flt nan_order ms = Inr order"
    using assms rd r by (cases "sort_messages flt nan_order ms") (auto simp: load_channel_messages_def)
  have ms: "ms = map parse_message (day_data zf (date_files zf channel_name))"
    using read_days_eq[of zf _ "[]" users us ms] rd r by simp
  have e: "\<forall>m \<in> set ms. m_replies m = []"
    by (auto simp: ms parse_message_def)
  have "asm_inv ms order (assemble ms order)"
    using sort_messages_perm[OF so] by (intro assemble_inv[OF e]) auto
  moreover have "h = heap (assemble ms order)" "tops = top_level (assemble ms order)"
    using assms rd r so by (auto simp: load_channel_messages_def Let_def)
  ultimately show ?thesis using ms so by blast
qed

section \<open>Thread assembly: placement of the messages\<close>


text \<open>The thread of the parser tests, with an orphan reply added.\<close>

definition thread_export :: archive where
  "thread_export =
     [(''general/2024-01-15.json'',
       Some [JObj [(''user'', ''U001''), (''text'', ''parent''),
                   (''ts'', ''1705307400.000''), (''thread_ts'', ''1705307400.000'')] [] [],
             JObj [(''user'', ''U002''), (''text'', ''reply''),
                   (''ts'', ''1705307500.000''), (''thread_ts'', ''1705307400.000'')] [] [],
             JObj [(''user'', ''U003''), (''text'', ''orphan''),
                   (''ts'', ''1705307450.000''), (''thread_ts'', ''9999.000'')] [] []])]"

definition thread_heap :: "Message list" where
  "thread_heap =
     [\<lparr>m_user = ''U001'', m_text = ''parent'', m_ts = ''1705307400.000'',
       m_thread_ts = ''1705307400.000'', m_replies = [1], m_attachments = [], m_files = [],
       m_subtype = []\<rparr>,
      \<lparr>m_user = ''U002'', m_text = ''reply'', m_ts = ''1705307500.000'',
       m_thread_ts = ''1705307400.000'', m_replies = [], m_attachments = [], m_files = [],
       m_subtype = []\<rparr>,
      \<lparr>m_user = ''U003'', m_text = ''orphan'', m_ts = ''1705307450.000'',
       m_thread_ts = ''9999.000'', m_replies = [], m_attachments = [], m_files = [],
       m_subtype = []\<rparr>]"

lemma thread_export_loads:
  "snd (load_channel_messages decimal_float keep_order thread_export ''general'' Map.empty)
     = Inr (thread_heap, [0, 2])"
  by code_simp

lemma distinct_concat_unique:
  "distinct (concat (map f xs)) \<Longrightarrow> p \<in> set xs \<Longrightarrow> q \<in> set xs \<Longrightarrow>
     a \<in> set (f p) \<Longrightarrow> a \<in> set (f q) \<Longrightarrow> p = q"
  by (induction xs) auto

lemma load_snd_inv:
  assumes "snd (load_channel_messages flt nan_order zf channel_name users) = Inr (h, tops)"
  shows "\<exists>ms order st.
           ms = map parse_message (day_data zf (date_files zf channel_name)) \<and>
           sort_messages flt nan_order ms = Inr order \<and>
           st = assemble ms order \<and> h = heap st \<and> tops = top_level st \<and>
           asm_inv ms order st"
  using assms load_channel_messages_inv[of flt nan_order zf channel_name users
      "fst (load_channel_messages flt nan_order zf channel_name users)" h tops]
  by (simp add: prod_eq_iff)

text \<open>
  C6: when \<open>load_channel_messages\<close> returns, the number of top-level messages plus
  the lengths of all their \<open>replies\<close> lists is the number of records read from the
  channel's day files, each of which was parsed into one message.
\<close>

theorem assembly_preserves_count:
  assumes "snd (load_channel_messages flt nan_order zf channel_name users) = Inr (h, tops)"
  shows "length tops + sum_list (map (\<lambda>p. length (m_replies (h ! p))) tops)
           = length (day_data zf (date_files zf channel_name))"
proof -
  from load_snd_inv[OF assms] obtain ms order st where
    ms: "ms = map parse_message (day_data zf (date_files zf channel_name))" and
    so: "sort_messages flt nan_order ms = Inr order" and
    st: "h = heap st" "tops = top_level st" and inv: "asm_inv ms order st"
    by blast
  have "distinct (placed st)" "set (placed st) = set order" "distinct order"
    "set order = {..< length ms}"
    using inv sort_messages_perm[OF so] by (simp_all add: asm_inv_def)
  then have "length (placed st) = length ms"
    by (metis distinct_card card_lessThan)
  moreover have "length (placed st) = length tops + sum_list (map (\<lambda>p. length (m_replies (h ! p))) tops)"
    by (simp add: placed_def st replies_of_def length_concat comp_def)
  ultimately show ?thesis by (simp add: ms)
qed

theorem assembly_preserves_count_witness:
  "snd (load_channel_messages decimal_float keep_order thread_export ''general'' Map.empty)
     = Inr (thread_heap, [0, 2]) \<and>
   length [0, 2 :: nat] + sum_list (map (\<lambda>p. length (m_replies (thread_heap ! p))) [0, 2])
     = length (day_data thread_export (date_files thread_export ''general''))"
  by (rule conjI[OF thread_export_loads assembly_preserves_count[OF thread_export_loads]])

lemma heap_frame_is_reply:
  assumes "asm_inv ms order st" "a < length ms"
  shows "is_reply (heap st ! a) = is_reply (ms ! a)"
    and "m_ts (heap st ! a) = m_ts (ms ! a)"
    and "m_thread_ts (heap st ! a) = m_thread_ts (ms ! a)"
    and "ts_key flt (heap st ! a) = ts_key flt (ms ! a)"
proof -
  have h: "heap st ! a = (ms ! a)\<lparr>m_replies := replies_of st a\<rparr>"
    using assms by (simp add: asm_inv_def)
  show "is_reply (heap st ! a) = is_reply (ms ! a)" by (subst h) (simp add: is_reply_frame)
  show "m_ts (heap st ! a) = m_ts (ms ! a)" by (subst h) simp
  show "m_thread_ts (heap st ! a) = m_thread_ts (ms ! a)" by (subst h) simp
  show "ts_key flt (heap st ! a) = ts_key flt (ms ! a)" by (subst h) (simp add: ts_key_frame)
qed

lemma heap_frame_keys:
  assumes "asm_inv ms order st"
  shows "map (ts_key flt) (heap st) = map (ts_key flt) ms"
proof (rule nth_equalityI)
  show "length (map (ts_key flt) (heap st)) = length (map (ts_key flt) ms)"
    using assms by (simp add: asm_inv_def)
  fix i assume "i < length (map (ts_key flt) (heap st))"
  then have i: "i < length ms" "i < length (heap st)" using assms by (simp_all add: asm_inv_def)
  show "map (ts_key flt) (heap st) ! i = map (ts_key flt) ms ! i"
    using heap_frame_is_reply(4)[OF assms i(1)] i by simp
qed

lemma keys_of_cong:
  "map (ts_key flt) xs = map (ts_key flt) ys \<Longrightarrow> keys_of flt xs = keys_of flt ys"
proof (induction xs arbitrary: ys)
  case Nil
  then show ?case by simp
next
  case (Cons x xs)
  then obtain y ys' where ys: "ys = y # ys'" by (cases ys) auto
  with Cons.prems have "ts_key flt x = ts_key flt y" "map (ts_key flt) xs = map (ts_key flt) ys'"
    by simp_all
  with Cons.IH[of ys'] show ?case by (simp add: ys split: sum.splits)
qed

lemma heap_frame_sort:
  assumes "asm_inv ms order st"
  shows "sort_messages flt nan_order (heap st) = sort_messages flt nan_order ms"
proof -
  have "length (heap st) = length ms" using assms by (simp add: asm_inv_def)
  then show ?thesis
    by (simp add: sort_messages_def keys_of_cong[OF heap_frame_keys[OF assms]] split: sum.splits)
qed

lemma registered_before_frame:
  assumes inv: "asm_inv ms order st" and o: "set order \<subseteq> {..< length ms}" and a: "a < length ms"
  shows "registered_before (heap st) order a = registered_before ms order a"
proof -
  have "\<forall>b \<in> set (takeWhile (\<lambda>b. b \<noteq> a) order). b < length ms"
    using o by (auto dest: set_takeWhileD)
  then show ?thesis
    unfolding registered_before_def list_ex_iff
    using heap_frame_is_reply(1,2)[OF inv] heap_frame_is_reply(3)[OF inv a] by auto
qed

text \<open>
  C1: when \<open>load_channel_messages\<close> returns, a reply (a message whose
  \<open>thread_ts\<close> is non-empty and differs from its \<open>ts\<close>) is in exactly one place. If a
  non-reply with \<open>ts\<close> equal to the reply's \<open>thread_ts\<close> stands before it in the sorted
  order, the reply is in the \<open>replies\<close> list of exactly one message, that message is
  top-level, and the reply is not top-level itself; otherwise it is top-level and in
  no \<open>replies\<close> list.
\<close>

theorem reply_placed_once:
  assumes "snd (load_channel_messages flt nan_order zf channel_name users) = Inr (h, tops)"
    and "a < length h" and "is_reply (h ! a)"
  shows "\<exists>order. sort_messages flt nan_order h = Inr order \<and>
           (if registered_before h order a
            then a \<notin> set tops \<and>
                 (\<exists>!p. p < length h \<and> a \<in> set (m_replies (h ! p))) \<and>
                 (\<forall>p < length h. a \<in> set (m_replies (h ! p)) \<longrightarrow> p \<in> set tops)
            else a \<in> set tops \<and> (\<forall>p < length h. a \<notin> set (m_replies (h ! p))))"
proof -
  from load_snd_inv[OF assms(1)] obtain ms order st where
    so: "sort_messages flt nan_order ms = Inr order" and
    st: "h = heap st" "tops = top_level st" and inv: "asm_inv ms order st"
    by blast
  have len: "length h = length ms" using inv st by (simp add: asm_inv_def)
  have ord: "distinct order" "set order = {..< length ms}" using sort_messages_perm[OF so] by simp_all
  have a: "a < length ms" "a \<in> set order" using assms(2) len ord by simp_all
  have ra: "is_reply (ms ! a)" using assms(3) heap_frame_is_reply(1)[OF inv a(1)] st by simp
  have so_h: "sort_messages flt nan_order h = Inr order" using heap_frame_sort[OF inv] so st by simp
  have reg_h: "registered_before h order a = registered_before ms order a"
    using registered_before_frame[OF inv _ a(1)] ord st by simp
  have top_iff: "a \<in> set tops \<longleftrightarrow> \<not> registered_before ms order a"
    using inv a ra st unfolding asm_inv_def by blast
  have dpl: "distinct (placed st)" and spl: "set (placed st) = set order"
    using inv by (simp_all add: asm_inv_def)
  have rep_top: "\<forall>p < length ms. replies_of st p \<noteq> [] \<longrightarrow> p \<in> set (top_level st)"
    using inv unfolding asm_inv_def by blast
  have in_top: "p \<in> set tops" if "p < length h" "a \<in> set (m_replies (h ! p))" for p
    using that rep_top len st by (auto simp: replies_of_def)
  show ?thesis
  proof (cases "registered_before ms order a")
    case True
    then have nt: "a \<notin> set tops" using top_iff by simp
    have "a \<in> set (placed st)" using spl a by simp
    then have "a \<in> set (concat (map (replies_of st) (top_level st)))"
      using nt st by (simp add: placed_def)
    then obtain p where p: "p \<in> set (top_level st)" "a \<in> set (replies_of st p)" by auto
    have "set (top_level st) \<subseteq> set order" using inv by (simp add: asm_inv_def subseq_subset)
    then have pl: "p < length h" using p ord len by auto
    have uniq: "q = p" if "q < length h" "a \<in> set (m_replies (h ! q))" for q
    proof -
      have "q \<in> set (top_level st)" using in_top[OF that] st by simp
      moreover have "distinct (concat (map (replies_of st) (top_level st)))"
        using dpl by (simp add: placed_def)
      ultimately show ?thesis
        using distinct_concat_unique[of "replies_of st" "top_level st" q p a] p that st
        by (simp add: replies_of_def)
    qed
    have pm: "a \<in> set (m_replies (h ! p))" using p st by (simp add: replies_of_def)
    have ex1: "\<exists>!p. p < length h \<and> a \<in> set (m_replies (h ! p))"
    proof (rule ex1I[of _ p])
      show "p < length h \<and> a \<in> set (m_replies (h ! p))" using pl pm by simp
      fix q assume "q < length h \<and> a \<in> set (m_replies (h ! q))"
      then show "q = p" using uniq by simp
    qed
    have tp: "\<forall>p < length h. a \<in> set (m_replies (h ! p)) \<longrightarrow> p \<in> set tops"
      using in_top by simp
    have rb: "registered_before h order a" using True reg_h by simp
    show ?thesis
      by (rule exI[of _ order], rule conjI[OF so_h], simp only: rb if_True, intro conjI nt ex1 tp)
  next
    case False
    then have t: "a \<in> set tops" using top_iff by simp
    have "a \<notin> set (m_replies (h ! p))" if "p < length h" for p
    proof
      assume c: "a \<in> set (m_replies (h ! p))"
      then have "p \<in> set (top_level st)" using in_top[OF that] st by simp
      then have "a \<in> set (concat (map (replies_of st) (top_level st)))"
        using c st by (auto simp: replies_of_def)
      then show False using dpl t st by (auto simp: placed_def)
    qed
    then have np: "\<forall>p < length h. a \<notin> set (m_replies (h ! p))" by simp
    have rb: "\<not> registered_before h order a" using False reg_h by simp
    show ?thesis
      by (rule exI[of _ order], rule conjI[OF so_h], simp only: rb if_False, intro conjI t np)
  qed
qed

theorem reply_placed_once_witness:
  "snd (load_channel_messages decimal_float keep_order thread_export ''general'' Map.empty)
     = Inr (thread_heap, [0, 2]) \<and>
   is_reply (thread_heap ! 1) \<and> 1 \<notin> set [0, 2 :: nat] \<and>
   (\<exists>!p. p < length thread_heap \<and> 1 \<in> set (m_replies (thread_heap ! p))) \<and>
   is_reply (thread_heap ! 2) \<and> 2 \<in> set [0, 2 :: nat]"
proof -
  have r1: "is_reply (thread_heap ! 1)" and r2: "is_reply (thread_heap ! 2)"
    and l1: "1 < length thread_heap" and l2: "2 < length thread_heap"
    by (simp_all add: thread_heap_def is_reply_def)
  have so: "sort_messages decimal_float keep_order thread_heap = Inr [0, 2, 1]" by code_simp
  have g1: "registered_before thread_heap [0, 2, 1] 1" by code_simp
  have g2: "\<not> registered_before thread_heap [0, 2, 1] 2" by code_simp
  from reply_placed_once[OF thread_export_loads l1 r1] so g1
  have "1 \<notin> set [0, 2 :: nat] \<and> (\<exists>!p. p < length thread_heap \<and> 1 \<in> set (m_replies (thread_heap ! p)))"
    by simp
  moreover from reply_placed_once[OF thread_export_loads l2 r2] so g2
  have "2 \<in> set [0, 2 :: nat]" by simp
  ultimately show ?thesis using thread_export_loads r1 r2 by blast
qed





























lemma backfill_keeps:
  assumes "users k = Some u"
  shows "backfill users raw k = Some u"
proof (cases "dget (strs raw) ''user'' [] = k")
  case True
  then have "backfill users raw = users" using assms by (simp add: backfill_def)
  then show ?thesis using assms by simp
next
  case False
  then show ?thesis using assms by (simp add: backfill_def Let_def)
qed

lemma read_records_keeps:
  "users k = Some u \<Longrightarrow> snd (read_records data (acc, users)) k = Some u"
  by (induction data arbitrary: acc users) (simp_all add: backfill_keeps)

lemma read_days_keeps:
  "users k = Some u \<Longrightarrow> fst (read_days zf files (acc, users)) k = Some u"
proof (induction files arbitrary: acc users)
  case Nil
  then show ?case by simp
next
  case (Cons f files)
  obtain d filepath where f: "f = (d, filepath)" by (cases f)
  show ?case
  proof (cases "read_json zf filepath")
    case (Inl e)
    then show ?thesis using Cons.prems f by simp
  next
    case (Inr data)
    obtain acc' users' where r: "read_records data (acc, users) = (acc', users')"
      by (cases "read_records data (acc, users)")
    then have "users' k = Some u" using read_records_keeps[where users=users and k=k and u=u and data=data and acc=acc] Cons.prems by simp
    then show ?thesis using Cons.IH[of users' acc'] f Inr r by simp
  qed
qed

lemma load_fst:
  "fst (load_channel_messages flt nan_order zf channel_name users)
     = fst (read_days zf (date_files zf channel_name) ([], users))"
  by (simp add: load_channel_messages_def Let_def split: prod.splits sum.splits)

text \<open>The record of the parser test with an inline profile for a user that the
  table already has.\<close>

definition profile_export :: archive where
  "profile_export =
     [(''general/2024-01-15.json'',
       Some [JObj [(''user'', ''U001''), (''text'', ''hi''), (''ts'', ''1705307400.000'')]
                  [(''user_profile'',
                    JObj [(''name'', ''wrong''), (''display_name'', ''Wrong Name''),
                          (''real_name'', ''Wrong'')] [] [])]
                  []])]"

definition alice :: User where
  "alice = \<lparr>u_id = ''U001'', u_name = ''alice'', u_display_name = ''alice'', u_real_name = []\<rparr>"

text \<open>
  C7: an entry that the user table has before the call to \<open>load_channel_messages\<close> is
  there unchanged after it, whether the call returns or raises; the call only adds
  entries under ids that had none.
\<close>

theorem backfill_never_overwrites:
  assumes "users k = Some u"
  shows "fst (load_channel_messages flt nan_order zf channel_name users) k = Some u"
  using read_days_keeps[where users=users and k=k and u=u] assms by (simp add: load_fst)

theorem backfill_never_overwrites_witness:
  "[''U001'' \<mapsto> alice] ''U001'' = Some alice \<and>
   fst (load_channel_messages decimal_float keep_order profile_export ''general'' [''U001'' \<mapsto> alice]) ''U001''
     = Some alice"
proof -
  have h: "[''U001'' \<mapsto> alice] ''U001'' = Some alice" by simp
  show ?thesis
    using h backfill_never_overwrites[where users="[''U001'' \<mapsto> alice]" and k="''U001''" and u=alice
        and flt=decimal_float and nan_order=keep_order and zf=profile_export and channel_name="''general''"]
    by blast
qed

lemma backfill_inserts:
  "fst (load_channel_messages decimal_float keep_order profile_export ''general'' Map.empty) ''U001''
     = Some \<lparr>u_id = ''U001'', u_name = ''wrong'', u_display_name = ''Wrong Name'', u_real_name = ''Wrong''\<rparr>"
  by code_simp

section \<open>Errors of the loaders\<close>


definition bad_ts_export :: archive where
  "bad_ts_export =
     [(''general/2024-01-15.json'',
       Some [JObj [(''user'', ''U001''), (''text'', ''hello''), (''ts'', ''not-a-number'')] [] []])]"

lemma dget_missing: "map_of d k = None \<Longrightarrow> dget d k v = v"
  by (simp add: dget_def)






















text \<open>
  C2: the sort key of a message with an empty \<open>ts\<close> is zero, but a \<open>ts\<close> that is not
  empty and that \<open>float\<close> rejects makes the sort, and with it the load, raise
  \<open>ValueError\<close>.
\<close>

lemma ts_key_cases:
  "ts_key flt m =
     (if m_ts m = [] then Inr (Fin 0)
      else if flt (m_ts m) = None then Inl ValueError else Inr (the (flt (m_ts m))))"
  by (simp add: ts_key_def split: option.splits)

theorem unparseable_ts_raises:
  "snd (load_channel_messages decimal_float keep_order bad_ts_export ''general'' Map.empty) = Inl ValueError"
  by code_simp

section \<open>Rendering of a message\<close>

lemma label_empty:
  "u_display_name u = [] \<Longrightarrow> u_real_name u = [] \<Longrightarrow> u_name u = [] \<Longrightarrow> label u = []"
  by (simp add: label_def)

lemma join_Cons: "join sep (x # xs) = x @ concat (map (\<lambda>y. sep @ y) xs)"
  by (simp add: join_def)

lemma join_header: "\<exists>body. join [c] (x # xs) = x @ body \<and> (body = [] \<or> hd body = c)"
  by (cases xs) (simp_all add: join_def)

lemma format_message_header:
  assumes "format_timestamp flt micros (m_ts msg) = Inr t"
  shows "\<exists>body. format_message flt micros msg users indent =
           Inr ((if indent then ''  '' else []) @ ''**@'' @ author_of users msg @ ''** ('' @ t
                 @ '')'' @ (if indent then '' [thread]'' else []) @ '':'' @ body) \<and>
           (body = [] \<or> hd body = CHR 0x0A)"
proof -
  define rest where "rest =
     (if convert_mrkdwn (m_text msg) users \<noteq> []
      then map (\<lambda>line. (if indent then ''  '' else []) @ line)
             (split_on (CHR 0x0A) (convert_mrkdwn (m_text msg) users))
      else [])
     @ concat (map (attachment_lines (if indent then ''  '' else [])) (m_attachments msg))
     @ map (file_line (if indent then ''  '' else [])) (m_files msg)"
  define header where "header =
     (if indent then ''  '' else []) @ ''**@'' @ author_of users msg @ ''** ('' @ t
       @ '')'' @ (if indent then '' [thread]'' else []) @ '':''"
  have f: "format_message flt micros msg users indent = Inr (join [CHR 0x0A] (header # rest))"
    using assms unfolding format_message_def Let_def rest_def header_def by simp
  from join_header[of "CHR 0x0A" header rest] obtain body where
    b: "join [CHR 0x0A] (header # rest) = header @ body" "body = [] \<or> hd body = CHR 0x0A"
    by blast
  have "format_message flt micros msg users indent =
           Inr ((if indent then ''  '' else []) @ ''**@'' @ author_of users msg @ ''** ('' @ t
                 @ '')'' @ (if indent then '' [thread]'' else []) @ '':'' @ body)"
    by (simp only: f b(1)) (simp add: header_def)
  then show ?thesis using b(2) by blast
qed

text \<open>
  C10: the author in the header of \<open>format_message\<close> is the user's label when the
  author id is in the table, also when that label is empty; it is the raw id when
  the id is not empty and not in the table; and it is \<open>unknown\<close> when the id is empty
  and not in the table. So \<open>unknown\<close> is rendered only in the last case, unless a
  label or an id is itself the text \<open>unknown\<close>. The header is the first line of the
  result.
\<close>

theorem author_rendering:
  "(users (m_user msg) = None \<and> m_user msg = [] \<longrightarrow> author_of users msg = ''unknown'') \<and>
   (users (m_user msg) = Some u \<longrightarrow> author_of users msg = label u) \<and>
   (users (m_user msg) = Some u \<and> u_display_name u = [] \<and> u_real_name u = [] \<and> u_name u = []
      \<longrightarrow> author_of users msg = []) \<and>
   (users (m_user msg) = None \<and> m_user msg \<noteq> [] \<longrightarrow> author_of users msg = m_user msg) \<and>
   (author_of users msg = ''unknown'' \<longrightarrow>
      (users (m_user msg) = None \<and> m_user msg = []) \<or>
      (\<exists>v. users (m_user msg) = Some v \<and> label v = ''unknown'') \<or>
      (users (m_user msg) = None \<and> m_user msg = ''unknown'')) \<and>
   (format_timestamp flt micros (m_ts msg) = Inr t \<longrightarrow>
      (\<exists>body. format_message flt micros msg users indent =
           Inr ((if indent then ''  '' else []) @ ''**@'' @ author_of users msg @ ''** ('' @ t
                 @ '')'' @ (if indent then '' [thread]'' else []) @ '':'' @ body) \<and>
           (body = [] \<or> hd body = CHR 0x0A)))"
proof (intro conjI impI)
  assume "format_timestamp flt micros (m_ts msg) = Inr t"
  then show "\<exists>body. format_message flt micros msg users indent =
           Inr ((if indent then ''  '' else []) @ ''**@'' @ author_of users msg @ ''** ('' @ t
                 @ '')'' @ (if indent then '' [thread]'' else []) @ '':'' @ body) \<and>
           (body = [] \<or> hd body = CHR 0x0A)"
    by (rule format_message_header)
next
  assume "author_of users msg = ''unknown''"
  then show "(users (m_user msg) = None \<and> m_user msg = []) \<or>
      (\<exists>v. users (m_user msg) = Some v \<and> label v = ''unknown'') \<or>
      (users (m_user msg) = None \<and> m_user msg = ''unknown'')"
    by (cases "users (m_user msg)") (auto simp: author_of_def split: if_splits)
qed (auto simp: author_of_def label_empty)

text \<open>A user without any name, and a message of that user.\<close>

definition nameless :: User where
  "nameless = \<lparr>u_id = ''U007'', u_name = [], u_display_name = [], u_real_name = []\<rparr>"

definition nameless_msg :: Message where
  "nameless_msg =
     \<lparr>m_user = ''U007'', m_text = ''hi'', m_ts = ''1705307400.000100'', m_thread_ts = [],
      m_replies = [], m_attachments = [], m_files = [], m_subtype = []\<rparr>"

lemma nameless_time:
  "format_timestamp decimal_float exact_micros (m_ts nameless_msg) = Inr ''8:30 AM''"
  by code_simp

lemma nameless_format:
  "format_message decimal_float exact_micros nameless_msg [''U007'' \<mapsto> nameless] False
     = Inr ''**@** (8:30 AM):\<newline>hi''"
  by code_simp

theorem author_rendering_witness:
  "[''U007'' \<mapsto> nameless] (m_user nameless_msg) = Some nameless \<and>
   author_of [''U007'' \<mapsto> nameless] nameless_msg = [] \<and>
   format_timestamp decimal_float exact_micros (m_ts nameless_msg) = Inr ''8:30 AM'' \<and>
   (\<exists>body. format_message decimal_float exact_micros nameless_msg [''U007'' \<mapsto> nameless] False =
           Inr (''**@'' @ author_of [''U007'' \<mapsto> nameless] nameless_msg @ ''** ('' @ ''8:30 AM''
                 @ '')'' @ '':'' @ body) \<and>
           (body = [] \<or> hd body = CHR 0x0A))"
proof -
  have u: "[''U007'' \<mapsto> nameless] (m_user nameless_msg) = Some nameless"
    by (simp add: nameless_msg_def)
  have n: "u_display_name nameless = [] \<and> u_real_name nameless = [] \<and> u_name nameless = []"
    by (simp add: nameless_def)
  note inst = author_rendering[where users="[''U007'' \<mapsto> nameless]" and msg=nameless_msg
      and u=nameless and flt=decimal_float and micros=exact_micros and t="''8:30 AM''"
      and indent=False]
  have a: "author_of [''U007'' \<mapsto> nameless] nameless_msg = []"
    using inst u n by blast
  have h: "\<exists>body. format_message decimal_float exact_micros nameless_msg [''U007'' \<mapsto> nameless] False =
           Inr (''**@'' @ author_of [''U007'' \<mapsto> nameless] nameless_msg @ ''** ('' @ ''8:30 AM''
                 @ '')'' @ '':'' @ body) \<and>
           (body = [] \<or> hd body = CHR 0x0A)"
    using inst nameless_time by simp
  show ?thesis using u a nameless_time h by blast
qed

section \<open>Formatting of timestamps\<close>

lemma format_unparseable:
  "flt ts = None \<Longrightarrow>
     format_timestamp flt micros ts = Inr ts \<and> format_date flt micros ts = Inr []"
  by (simp add: format_timestamp_def format_date_def)

lemma format_not_a_number:
  "flt ts = Some NaN \<Longrightarrow>
     format_timestamp flt micros ts = Inr ts \<and> format_date flt micros ts = Inr []"
  by (simp add: format_timestamp_def format_date_def fromtimestamp_def)

lemma format_infinite:
  "flt ts = Some PosInf \<or> flt ts = Some NegInf \<Longrightarrow>
     format_timestamp flt micros ts = Inl OverflowError \<and>
     format_date flt micros ts = Inl OverflowError"
  by (auto simp: format_timestamp_def format_date_def fromtimestamp_def)

lemma format_out_of_range:
  "flt ts = Some (Fin q) \<Longrightarrow> 2 ^ 63 \<le> micros q div 1000000 \<Longrightarrow>
     format_timestamp flt micros ts = Inl OverflowError \<and>
     format_date flt micros ts = Inl OverflowError"
  by (simp add: format_timestamp_def format_date_def fromtimestamp_def Let_def)

lemma hour_strings:
  "\<forall>h \<in> set [1 .. 12]. lstrip (CHR ''0'') (zfill 2 (digits h)) = digits h \<and>
                         hd (digits h) \<noteq> CHR ''0'' \<and> digits h \<noteq> []"
  by code_simp

lemma lstrip_hour:
  assumes "1 \<le> h" "h \<le> 12"
  shows "lstrip (CHR ''0'') (zfill 2 (digits h) @ rest) = digits h @ rest"
proof -
  have h: "h \<in> set [1 .. 12]" using assms by simp
  have a: "lstrip (CHR ''0'') (zfill 2 (digits h)) = digits h" and b: "digits h \<noteq> []"
    and c: "hd (digits h) \<noteq> CHR ''0''"
    using hour_strings h by blast+
  have m: "hd (digits h) \<in> set (zfill 2 (digits h))" using b by (simp add: zfill_def)
  have "dropWhile (\<lambda>x. x = CHR ''0'') (zfill 2 (digits h) @ rest)
               = dropWhile (\<lambda>x. x = CHR ''0'') (zfill 2 (digits h)) @ rest"
    using dropWhile_append1[where x="hd (digits h)" and xs="zfill 2 (digits h)"
        and P="\<lambda>x. x = CHR ''0''" and ys=rest] m c by simp
  then show ?thesis using a by (simp add: lstrip_def)
qed

lemma hour12_range: "1 \<le> hour12 h \<and> hour12 h \<le> 12"
proof (cases "h mod 12 = 0")
  case True
  then have "hour12 h = 12" by (simp add: hour12_def)
  then show ?thesis by simp
next
  case False
  have "0 \<le> h mod 12" "h mod 12 < 12" by simp_all
  then have "1 \<le> h mod 12 \<and> h mod 12 \<le> 12" using False by linarith
  moreover have "hour12 h = h mod 12" using False by (simp add: hour12_def)
  ultimately show ?thesis by simp
qed

text \<open>
  What the two functions return for a float in the range of \<open>datetime\<close>: the time
  without a leading zero on the hour, and the date.
\<close>

lemma format_valid:
  assumes "flt ts = Some x" "fromtimestamp micros x = Inr dt"
  shows "format_timestamp flt micros ts =
           Inr (digits (hour12 (dt_hour dt)) @ '':'' @ zfill 2 (digits (dt_minute dt))
                @ '' '' @ (if dt_hour dt < 12 then ''AM'' else ''PM''))"
    and "format_date flt micros ts =
           Inr (zfill 4 (digits (dt_year dt)) @ ''-'' @ zfill 2 (digits (dt_month dt))
                @ ''-'' @ zfill 2 (digits (dt_day dt)))"
proof -
  have r: "1 \<le> hour12 (dt_hour dt)" "hour12 (dt_hour dt) \<le> 12"
    using hour12_range[of "dt_hour dt"] by simp_all
  show "format_timestamp flt micros ts =
           Inr (digits (hour12 (dt_hour dt)) @ '':'' @ zfill 2 (digits (dt_minute dt))
                @ '' '' @ (if dt_hour dt < 12 then ''AM'' else ''PM''))"
    using assms lstrip_hour[OF r]
    by (simp add: format_timestamp_def strftime_IMp_def)
  show "format_date flt micros ts =
           Inr (zfill 4 (digits (dt_year dt)) @ ''-'' @ zfill 2 (digits (dt_month dt))
                @ ''-'' @ zfill 2 (digits (dt_day dt)))"
    using assms by (simp add: format_date_def strftime_Ymd_def)
qed

lemma format_examples:
  "format_timestamp decimal_float exact_micros ''1705307400.000100'' = Inr ''8:30 AM''"
  "format_date decimal_float exact_micros ''1705307400.000100'' = Inr ''2024-01-15''"
  "format_timestamp decimal_float exact_micros ''1705320000.000000'' = Inr ''12:00 PM''"
  "format_timestamp decimal_float exact_micros ''not-a-number'' = Inr ''not-a-number''"
  "format_date decimal_float exact_micros ''bad'' = Inr []"
  by code_simp+

text \<open>
  C4: a timestamp that \<open>float\<close> rejects comes back unchanged (or as the empty string),
  and a timestamp in the range of \<open>datetime\<close> is rendered, as the lemmas above say.
  But \<open>fromtimestamp\<close> also raises \<open>OverflowError\<close>, which the \<open>except\<close> clause does not
  name: for the timestamp \<open>inf\<close>, and for a number of seconds beyond the platform's
  \<open>time_t\<close>, both functions raise instead of returning their fallback.
\<close>

theorem format_overflow_raises:
  "format_timestamp decimal_float exact_micros ''inf'' = Inl OverflowError \<and>
   format_date decimal_float exact_micros ''inf'' = Inl OverflowError \<and>
   format_timestamp decimal_float exact_micros ''100000000000000000000'' = Inl OverflowError \<and>
   format_date decimal_float exact_micros ''100000000000000000000'' = Inl OverflowError"
  by code_simp

text \<open>So at \<open>inf\<close> neither function returns its fallback.\<close>

theorem format_overflow_raises_witness:
  "format_timestamp decimal_float exact_micros ''inf'' \<noteq> Inr ''inf'' \<and>
   format_date decimal_float exact_micros ''inf'' \<noteq> Inr []"
  using format_overflow_raises by simp

end
